theory Spec2Isabelle
  imports Main "HOL-Library.Sublist"
begin

section \<open>JavaScript values\<close>

text \<open>
  The library manipulates plain JavaScript data. A value is \<open>undefined\<close>, \<open>null\<close>, a boolean,
  a number, a string, an array or an object. An object is the list of its own enumerable
  properties in enumeration order (keys are pairwise distinct in every object that JavaScript can
  build); an array is the list of its elements (dense, as array literals and \<open>JSON.parse\<close> build
  them). Numbers are opaque to the library and stand here as integers.

  Scope of the value model: properties that an object inherits from \<open>Object.prototype\<close> are not
  part of it, and a value is a tree (the same object stored under two paths is two copies).
  Sharing between the store and the result of \<open>dump\<close> is the subject of the reference model in
  the last sections.
\<close>

datatype jv =
    JUndefined
  | JNull
  | JBool bool
  | JNum int
  | JStr string
  | JArr "jv list"
  | JObj "(string \<times> jv) list"

type_synonym props = "(string \<times> jv) list"

datatype jstype = TUndefined | TObject | TBoolean | TNumber | TString

text \<open>The \<open>typeof\<close> operator; \<open>typeof null\<close> is \<open>'object'\<close>, as is \<open>typeof []\<close>.\<close>

fun typeof :: "jv \<Rightarrow> jstype" where
  "typeof JUndefined = TUndefined"
| "typeof JNull = TObject"
| "typeof (JBool b) = TBoolean"
| "typeof (JNum n) = TNumber"
| "typeof (JStr s) = TString"
| "typeof (JArr xs) = TObject"
| "typeof (JObj ps) = TObject"

text \<open>Truthiness, as tested by \<open>!x\<close>, \<open>x && ...\<close> and \<open>if (x)\<close>.\<close>

fun truthy :: "jv \<Rightarrow> bool" where
  "truthy JUndefined = False"
| "truthy JNull = False"
| "truthy (JBool b) = b"
| "truthy (JNum n) = (n \<noteq> 0)"
| "truthy (JStr s) = (s \<noteq> [])"
| "truthy (JArr xs) = True"
| "truthy (JObj ps) = True"

datatype error =
    Error string      \<comment> \<open>\<open>throw new Error(message)\<close>\<close>
  | TypeError         \<comment> \<open>\<open>in\<close> applied to a primitive; \<open>JSON.stringify\<close> of a cyclic structure\<close>
  | Unmodelled        \<comment> \<open>an assignment that leaves the value model (see \<open>set_property\<close>)\<close>

subsection \<open>Array indices as property names\<close>

fun string_of_nat :: "nat \<Rightarrow> string" where
  "string_of_nat n =
     (if n < 10 then [''0123456789'' ! n]
      else string_of_nat (n div 10) @ [''0123456789'' ! (n mod 10)])"

declare string_of_nat.simps [simp del]

definition index_keys :: "nat \<Rightarrow> string list" where
  "index_keys n = map string_of_nat [0..<n]"

text \<open>
  The own enumerable properties of a value in \<open>for ... in\<close> order. The library only ever
  enumerates objects and arrays (every loop is guarded by a \<open>typeof\<close> test).
\<close>

fun own_props :: "jv \<Rightarrow> props" where
  "own_props (JObj ps) = ps"
| "own_props (JArr xs) = zip (index_keys (length xs)) xs"
| "own_props v = []"

subsection \<open>Property access on objects and arrays\<close>

text \<open>\<open>key in current\<close> for an object or an array (an array also owns \<open>length\<close>).\<close>

fun has_property :: "string \<Rightarrow> jv \<Rightarrow> bool" where
  "has_property key (JObj ps) = (map_of ps key \<noteq> None)"
| "has_property key (JArr xs) =
     (key = ''length'' \<or> map_of (own_props (JArr xs)) key \<noteq> None)"
| "has_property key v = False"

text \<open>\<open>current[key]\<close> for an object or an array.\<close>

fun get_property :: "jv \<Rightarrow> string \<Rightarrow> jv" where
  "get_property (JObj ps) key = (case map_of ps key of Some v \<Rightarrow> v | None \<Rightarrow> JUndefined)"
| "get_property (JArr xs) key =
     (if key = ''length'' then JNum (int (length xs))
      else case map_of (own_props (JArr xs)) key of Some v \<Rightarrow> v | None \<Rightarrow> JUndefined)"
| "get_property v key = JUndefined"

text \<open>
  \<open>obj[key] = value\<close> on the property list of an object: an existing key keeps its place, a new
  key is appended. (The rule that enumerates integer-like keys first is not modelled; it changes
  enumeration order only.)
\<close>

fun obj_set :: "(string \<times> 'a) list \<Rightarrow> string \<Rightarrow> 'a \<Rightarrow> (string \<times> 'a) list" where
  "obj_set [] key v = [(key, v)]"
| "obj_set ((k, w) # ps) key v = (if k = key then (k, v) # ps else (k, w) # obj_set ps key v)"

text \<open>
  \<open>current[key] = value\<close>. On an array, writing an existing index or the index just past the end
  stays inside the model; any other key (a hole, \<open>length\<close>, a named property) does not.
\<close>

fun set_property :: "jv \<Rightarrow> string \<Rightarrow> jv \<Rightarrow> error + jv" where
  "set_property (JObj ps) key v = Inr (JObj (obj_set ps key v))"
| "set_property (JArr xs) key v =
     (if key = ''length'' then Inl Unmodelled
      else if key \<in> set (index_keys (length xs))
        then Inr (JArr (map (\<lambda>(k, x). if k = key then v else x) (own_props (JArr xs))))
      else if key = string_of_nat (length xs) then Inr (JArr (xs @ [v]))
      else Inl Unmodelled)"
| "set_property c key v = Inl Unmodelled"

section \<open>Path tokenizer and key escaper\<close>

definition dot :: char where
  "dot = CHR ''.''"

definition backslash :: char where
  "backslash = CHR 0x5C"

text \<open>
  \<open>path.split(/(?<!\\)\./)\<close>: a dot separates two segments unless the character just before it
  is a backslash. The flag says whether the previous character was a backslash.
\<close>

fun split_unescaped :: "bool \<Rightarrow> string \<Rightarrow> string list" where
  "split_unescaped esc [] = [[]]"
| "split_unescaped esc (c # cs) =
     (if c = dot \<and> \<not> esc then [] # split_unescaped False cs
      else case split_unescaped (c = backslash) cs of
             seg # segs \<Rightarrow> (c # seg) # segs
           | [] \<Rightarrow> [[c]])"

text \<open>\<open>key.replace(/\\\./g, '.')\<close>: every backslash-dot pair, left to right, becomes a dot.\<close>

fun unescape :: "string \<Rightarrow> string" where
  "unescape (a # b # cs) =
     (if a = backslash \<and> b = dot then dot # unescape cs else a # unescape (b # cs))"
| "unescape cs = cs"

text \<open>\<open>key.replace(/\./g, '\\.')\<close>: every dot gets a backslash in front.\<close>

fun escapeKey :: "string \<Rightarrow> string" where
  "escapeKey [] = []"
| "escapeKey (c # cs) = (if c = dot then backslash # dot # escapeKey cs else c # escapeKey cs)"

text \<open>
  \<open>getKeys\<close> of the manager, and the same expression inlined in \<open>unflattenJson\<close>,
  \<open>setNestedValueWithEscaping\<close>, \<open>searchNestedValueWithEscaping\<close>, \<open>hasNestedKeyWithEscaping\<close>
  and \<open>getNestedValueWithEscaping\<close>.
\<close>

definition getKeys :: "string \<Rightarrow> string list" where
  "getKeys path = map unescape (split_unescaped False path)"

section \<open>Traversal operations\<close>

text \<open>
  The \<open>keys.forEach\<close> loop of \<open>setNestedValueWithEscaping\<close> and of \<open>unflattenJson\<close> (the two
  bodies are the same text). \<open>current\<close> is mutated in place in the source; the model returns the
  updated \<open>current\<close>. The last key is assigned; an intermediate key whose value is falsy or not of
  type object is first replaced by a fresh empty object.
\<close>

fun assign_path :: "jv \<Rightarrow> string list \<Rightarrow> jv \<Rightarrow> error + jv" where
  "assign_path current [] v = Inr current"
| "assign_path current [key] v = set_property current key v"
| "assign_path current (key # keys) v =
     (let child = get_property current key;
          next = (if \<not> truthy child \<or> typeof child \<noteq> TObject then JObj [] else child)
      in case assign_path next keys v of
           Inl e \<Rightarrow> Inl e
         | Inr next' \<Rightarrow> set_property current key next')"

text \<open>
  \<open>setNestedValueWithEscaping(obj, path, value)\<close>: the outcome of the call, paired with \<open>obj\<close>
  as it is after the call (with the outcome \<open>Unmodelled\<close> the tree is returned as it was, and
  says nothing about the source). The test \<open>typeof path !== 'string'\<close> is the \<open>case\<close> on
  \<open>path\<close>, here and in the reading functions.
\<close>

definition setNestedValueWithEscaping :: "jv \<Rightarrow> jv \<Rightarrow> jv \<Rightarrow> (error + unit) \<times> jv" where
  "setNestedValueWithEscaping obj path v =
     (if typeof obj \<noteq> TObject \<or> obj = JNull
        then (Inl (Error ''First argument must be a non-null object.''), obj)
      else case path of
        JStr p \<Rightarrow>
          (case assign_path obj (getKeys p) v of
             Inl e \<Rightarrow> (Inl e, obj)
           | Inr obj' \<Rightarrow> (Inr (), obj'))
      | _ \<Rightarrow> (Inl (Error ''Path must be a string.''), obj))"

text \<open>
  The reading functions. Each has its own \<open>for (const key of keys)\<close> loop in the source, so
  each loop is transcribed on its own; \<open>None\<close> is the early \<open>return\<close> from inside the loop.
\<close>

fun searchNested_loop :: "jv \<Rightarrow> string list \<Rightarrow> jv option" where
  "searchNested_loop current [] = Some current"
| "searchNested_loop current (key # keys) =
     (if truthy current \<and> typeof current = TObject \<and> has_property key current
        then searchNested_loop (get_property current key) keys
      else None)"

definition searchNestedValueWithEscaping :: "jv \<Rightarrow> jv \<Rightarrow> error + jv" where
  "searchNestedValueWithEscaping obj path =
     (if \<not> truthy obj \<or> typeof obj \<noteq> TObject
        then Inl (Error ''First argument must be a non-null object.'')
      else case path of
        JStr p \<Rightarrow>
          (case searchNested_loop obj (getKeys p) of
             Some current \<Rightarrow> Inr current
           | None \<Rightarrow> Inr JUndefined)
      | _ \<Rightarrow> Inl (Error ''Path must be a string.''))"

fun hasNested_loop :: "jv \<Rightarrow> string list \<Rightarrow> bool" where
  "hasNested_loop current [] = True"
| "hasNested_loop current (key # keys) =
     (if truthy current \<and> typeof current = TObject \<and> has_property key current
        then hasNested_loop (get_property current key) keys
      else False)"

definition hasNestedKeyWithEscaping :: "jv \<Rightarrow> jv \<Rightarrow> error + bool" where
  "hasNestedKeyWithEscaping obj path =
     (if \<not> truthy obj \<or> typeof obj \<noteq> TObject
        then Inl (Error ''First argument must be a non-null object.'')
      else case path of
        JStr p \<Rightarrow> Inr (hasNested_loop obj (getKeys p))
      | _ \<Rightarrow> Inl (Error ''Path must be a string.''))"

text \<open>
  \<open>getNestedValueWithEscaping\<close>: the second declaration of that name in \<open>index.js\<close>, which is the
  one in force (a later function declaration replaces an earlier one of the same name).
\<close>

fun getNested_loop :: "jv \<Rightarrow> string list \<Rightarrow> jv option" where
  "getNested_loop current [] = Some current"
| "getNested_loop current (key # keys) =
     (if truthy current \<and> typeof current = TObject \<and> has_property key current
        then getNested_loop (get_property current key) keys
      else None)"

definition getNestedValueWithEscaping :: "jv \<Rightarrow> jv \<Rightarrow> error + jv" where
  "getNestedValueWithEscaping obj path =
     (if \<not> truthy obj \<or> typeof obj \<noteq> TObject
        then Inl (Error ''First argument must be a non-null object.'')
      else case path of
        JStr p \<Rightarrow>
          (case getNested_loop obj (getKeys p) of
             Some current \<Rightarrow> Inr current
           | None \<Rightarrow> Inr JUndefined)
      | _ \<Rightarrow> Inl (Error ''Path must be a string.''))"

section \<open>Flatten and unflatten\<close>

text \<open>
  \<open>newKey\<close> in \<open>recurse\<close> and \<open>fullPath\<close> in \<open>deepSearch\<close>: the template
  \<open>prefix ? `${prefix}.${escapedKey}` : escapedKey\<close>, with \<open>escapedKey = key.replace(/\./g, '\\.')\<close>.
  An empty prefix is falsy, so nothing is put in front of the key then.
\<close>

definition join_key :: "string \<Rightarrow> string \<Rightarrow> string" where
  "join_key keyPrefix key =
     (if keyPrefix \<noteq> [] then keyPrefix @ [dot] @ escapeKey key else escapeKey key)"

text \<open>
  \<open>recurse(current, keyPrefix)\<close> of \<open>flattenJsonWithEscaping\<close>, over the own properties of
  \<open>current\<close>. Its only effect is a series of assignments \<open>result[newKey] = current[key]\<close>; the
  function returns them in the order in which they happen.
\<close>

function recurse :: "props \<Rightarrow> string \<Rightarrow> props" where
  "recurse [] keyPrefix = []"
| "recurse ((key, v) # rest) keyPrefix =
     (let newKey = join_key keyPrefix key
      in (if typeof v = TObject \<and> v \<noteq> JNull then recurse (own_props v) newKey
          else [(newKey, v)])
         @ recurse rest keyPrefix)"
  by pat_completeness auto
termination
proof (relation "measure (\<lambda>(ps, keyPrefix). size_list (\<lambda>(k, v). size v) ps)")
  have obj: "size_list (\<lambda>(k, v). size v) ps \<le> size_list (size_prod (\<lambda>x. 0) size) ps"
    for ps :: props
    by (induction ps) auto
  have arr: "size_list (\<lambda>(k, v). size v) (zip ks xs) \<le> size_list size xs"
    for ks :: "string list" and xs :: "jv list"
  proof (induction xs arbitrary: ks)
    case Nil
    show ?case by simp
  next
    case (Cons x xs)
    from Cons[of "tl ks"] show ?case by (cases ks) auto
  qed
  have own: "size_list (\<lambda>(k, v). size v) (own_props v) \<le> size v" for v
  proof (cases v)
    case (JObj ps)
    with obj[of ps] show ?thesis by simp
  next
    case (JArr xs)
    with arr[of "index_keys (length xs)" xs] show ?thesis by simp
  qed simp_all
  fix key :: string and v :: jv and rest :: props and keyPrefix x :: string
  show "((own_props v, x), (key, v) # rest, keyPrefix)
        \<in> measure (\<lambda>(ps, keyPrefix). size_list (\<lambda>(k, v). size v) ps)"
    using own[of v] by simp
  show "((rest, keyPrefix), (key, v) # rest, keyPrefix)
        \<in> measure (\<lambda>(ps, keyPrefix). size_list (\<lambda>(k, v). size v) ps)"
    by simp
qed simp

definition flattenJsonWithEscaping :: "jv \<Rightarrow> string \<Rightarrow> error + jv" where
  "flattenJsonWithEscaping obj keyPrefix =
     (if typeof obj \<noteq> TObject \<or> obj = JNull
        then Inl (Error ''Input must be a non-null object.'')
      else Inr (JObj (foldl (\<lambda>result (newKey, v). obj_set result newKey v) []
                        (recurse (own_props obj) keyPrefix))))"

text \<open>The \<open>for (const fullKey in obj)\<close> loop of \<open>unflattenJson\<close>, threading \<open>result\<close>.\<close>

fun unflatten_loop :: "props \<Rightarrow> jv \<Rightarrow> error + jv" where
  "unflatten_loop [] result = Inr result"
| "unflatten_loop ((fullKey, v) # rest) result =
     (case assign_path result (getKeys fullKey) v of
        Inl e \<Rightarrow> Inl e
      | Inr result' \<Rightarrow> unflatten_loop rest result')"

definition unflattenJson :: "jv \<Rightarrow> error + jv" where
  "unflattenJson obj =
     (if typeof obj \<noteq> TObject \<or> obj = JNull
        then Inl (Error ''Input must be a non-null object.'')
      else unflatten_loop (own_props obj) (JObj []))"

section \<open>Multi-criteria search\<close>

text \<open>
  The criteria object \<open>{ path, like, keywords, regex }\<close>, with a string for \<open>path\<close> and \<open>like\<close> and
  an array of strings for \<open>keywords\<close>; \<open>None\<close> is a missing option. A regular expression is the
  predicate that its \<open>test\<close> method computes (for a pattern without the \<open>g\<close> and \<open>y\<close> flags,
  \<open>test\<close> has no state).
\<close>

record criteria =
  crit_path :: "string option"
  crit_like :: "string option"
  crit_keywords :: "string list option"
  crit_regex :: "(string \<Rightarrow> bool) option"

text \<open>A search result \<open>{ path, value }\<close>.\<close>

type_synonym match = "string \<times> jv"

text \<open>\<open>s.includes(kw)\<close> (\<open>includes\<close> alone is a keyword of Isabelle): \<open>kw\<close> occurs in \<open>s\<close> as a contiguous substring.\<close>

fun str_includes :: "string \<Rightarrow> string \<Rightarrow> bool" where
  "str_includes [] kw = (kw = [])"
| "str_includes (c # cs) kw = (prefix kw (c # cs) \<or> str_includes cs kw)"

text \<open>\<open>escapeDots\<close> of \<open>searchJson\<close>, which replaces every backslash-dot pair by a dot.\<close>

definition escapeDots :: "string \<Rightarrow> string" where
  "escapeDots key = unescape key"

text \<open>\<open>normalizedPath.split(".")\<close>: every dot separates.\<close>

fun split_dots :: "string \<Rightarrow> string list" where
  "split_dots [] = [[]]"
| "split_dots (c # cs) =
     (if c = dot then [] # split_dots cs
      else case split_dots cs of
             seg # segs \<Rightarrow> (c # seg) # segs
           | [] \<Rightarrow> [[c]])"

text \<open>
  The loop of \<open>searchPath\<close>. The test is \<open>current && key in current\<close>, without the \<open>typeof\<close>
  guard of the reading functions: on a truthy primitive the \<open>in\<close> operator throws a
  \<open>TypeError\<close>. The early \<open>return null\<close> is \<open>Inr JNull\<close>.
\<close>

fun searchPath_loop :: "jv \<Rightarrow> string list \<Rightarrow> error + jv" where
  "searchPath_loop current [] = Inr current"
| "searchPath_loop current (key # keys) =
     (if truthy current
        then (if typeof current \<noteq> TObject then Inl TypeError
              else if has_property key current
                then searchPath_loop (get_property current key) keys
              else Inr JNull)
      else Inr JNull)"

definition searchPath :: "jv \<Rightarrow> string \<Rightarrow> string \<Rightarrow> error + jv" where
  "searchPath obj currentPath targetPath =
     searchPath_loop obj (split_dots (escapeDots targetPath))"

text \<open>The three tests of \<open>deepSearch\<close> at one node.\<close>

definition like_matches :: "criteria \<Rightarrow> string \<Rightarrow> bool" where
  "like_matches c fullPath =
     (case crit_like c of Some l \<Rightarrow> l \<noteq> [] \<and> str_includes fullPath l | None \<Rightarrow> False)"

definition keywords_match :: "criteria \<Rightarrow> string \<Rightarrow> jv \<Rightarrow> bool" where
  "keywords_match c fullPath v =
     (case crit_keywords c of
        Some kws \<Rightarrow>
          list_ex (\<lambda>kw. str_includes fullPath kw \<or>
                         (case v of JStr s \<Rightarrow> str_includes s kw | _ \<Rightarrow> False)) kws
      | None \<Rightarrow> False)"

definition regex_matches :: "criteria \<Rightarrow> string \<Rightarrow> bool" where
  "regex_matches c fullPath =
     (case crit_regex c of Some r \<Rightarrow> r fullPath | None \<Rightarrow> False)"

text \<open>
  \<open>deepSearch(obj, currentPath)\<close> over the properties of \<open>obj\<close>. Its only effect is
  \<open>results.push\<close>; the function returns the pushed matches in order.
\<close>

function deepSearch :: "criteria \<Rightarrow> props \<Rightarrow> string \<Rightarrow> match list" where
  "deepSearch c [] currentPath = []"
| "deepSearch c ((key, v) # rest) currentPath =
     (let fullPath = join_key currentPath key
      in (if like_matches c fullPath then [(fullPath, v)] else [])
         @ (if keywords_match c fullPath v then [(fullPath, v)] else [])
         @ (if regex_matches c fullPath then [(fullPath, v)] else [])
         @ (if typeof v = TObject \<and> v \<noteq> JNull then deepSearch c (own_props v) fullPath
            else [])
         @ deepSearch c rest currentPath)"
  by pat_completeness auto
termination
proof (relation "measure (\<lambda>(c, ps, currentPath). size_list (\<lambda>(k, v). size v) ps)")
  have obj: "size_list (\<lambda>(k, v). size v) ps \<le> size_list (size_prod (\<lambda>x. 0) size) ps"
    for ps :: props
    by (induction ps) auto
  have arr: "size_list (\<lambda>(k, v). size v) (zip ks xs) \<le> size_list size xs"
    for ks :: "string list" and xs :: "jv list"
  proof (induction xs arbitrary: ks)
    case Nil
    show ?case by simp
  next
    case (Cons x xs)
    from Cons[of "tl ks"] show ?case by (cases ks) auto
  qed
  have own: "size_list (\<lambda>(k, v). size v) (own_props v) \<le> size v" for v
  proof (cases v)
    case (JObj ps)
    with obj[of ps] show ?thesis by simp
  next
    case (JArr xs)
    with arr[of "index_keys (length xs)" xs] show ?thesis by simp
  qed simp_all
  fix c :: criteria and key :: string and v :: jv and rest :: props
    and currentPath x :: string
  show "((c, own_props v, x), c, (key, v) # rest, currentPath)
        \<in> measure (\<lambda>(c, ps, currentPath). size_list (\<lambda>(k, v). size v) ps)"
    using own[of v] by simp
  show "((c, rest, currentPath), c, (key, v) # rest, currentPath)
        \<in> measure (\<lambda>(c, ps, currentPath). size_list (\<lambda>(k, v). size v) ps)"
    by simp
qed simp

text \<open>\<open>like || keywords || regex\<close>: an empty \<open>like\<close> string is falsy, every array is truthy.\<close>

definition deep_requested :: "criteria \<Rightarrow> bool" where
  "deep_requested c =
     ((case crit_like c of Some l \<Rightarrow> l \<noteq> [] | None \<Rightarrow> False)
      \<or> crit_keywords c \<noteq> None \<or> crit_regex c \<noteq> None)"

text \<open>The path part of \<open>searchJson\<close>: \<open>if (path) { ... }\<close>.\<close>

definition path_search :: "jv \<Rightarrow> criteria \<Rightarrow> error + match list" where
  "path_search json c =
     (case crit_path c of
        Some p \<Rightarrow>
          (if p \<noteq> [] then
             (case searchPath json [] p of
                Inl e \<Rightarrow> Inl e
              | Inr v \<Rightarrow> Inr (if v \<noteq> JNull then [(p, v)] else []))
           else Inr [])
      | None \<Rightarrow> Inr [])"

definition searchJson :: "jv \<Rightarrow> criteria \<Rightarrow> error + match list" where
  "searchJson json c =
     (case path_search json c of
        Inl e \<Rightarrow> Inl e
      | Inr results \<Rightarrow>
          Inr (results @ (if deep_requested c then deepSearch c (own_props json) [] else [])))"

section \<open>The store\<close>

text \<open>
  \<open>JSON.parse(JSON.stringify(x))\<close> on a value: properties whose value is \<open>undefined\<close> are left
  out of objects, \<open>undefined\<close> array elements become \<open>null\<close>.
\<close>

fun json_clone :: "jv \<Rightarrow> jv" where
  "json_clone (JObj ps) =
     JObj (map (\<lambda>(k, v). (k, json_clone v)) (filter (\<lambda>(k, v). v \<noteq> JUndefined) ps))"
| "json_clone (JArr xs) = JArr (map (\<lambda>x. if x = JUndefined then JNull else json_clone x) xs)"
| "json_clone v = v"

text \<open>
  The manager created by \<open>createJsonManager\<close>: its state is the closure variable
  \<open>jsonObject\<close>. An operation that can change it returns the new state as well.
\<close>

type_synonym store = jv

definition createJsonManager :: store where
  "createJsonManager = JObj []"

definition read :: "store \<Rightarrow> jv \<Rightarrow> error + jv" where
  "read jsonObject path = getNestedValueWithEscaping jsonObject path"

text \<open>\<open>write\<close> of the manager (\<open>write\<close> alone is a keyword of Isabelle).\<close>

definition write_value :: "store \<Rightarrow> jv \<Rightarrow> jv \<Rightarrow> (error + unit) \<times> store" where
  "write_value jsonObject path v = setNestedValueWithEscaping jsonObject path v"

definition hasKey :: "store \<Rightarrow> jv \<Rightarrow> error + bool" where
  "hasKey jsonObject path = hasNestedKeyWithEscaping jsonObject path"

definition has :: "store \<Rightarrow> criteria \<Rightarrow> error + match list" where
  "has jsonObject c = searchJson jsonObject c"

definition search :: "store \<Rightarrow> jv \<Rightarrow> error + jv" where
  "search jsonObject path = searchNestedValueWithEscaping jsonObject path"

text \<open>
  The value that \<open>dump()\<close> returns. (\<open>unflattenJson\<close> puts the objects held by the owned tree
  into its result by reference and may then assign into them, when another top-level key leads
  into such an object; the reference model below follows these assignments.)
\<close>

definition dump :: "store \<Rightarrow> error + jv" where
  "dump jsonObject =
     (case unflattenJson jsonObject of
        Inl e \<Rightarrow> Inl e
      | Inr nested \<Rightarrow> Inr (json_clone nested))"

definition init :: "store \<Rightarrow> jv \<Rightarrow> (error + unit) \<times> store" where
  "init jsonObject obj =
     (case flattenJsonWithEscaping (if truthy obj then obj else JObj []) [] of
        Inl e \<Rightarrow> (Inl e, jsonObject)
      | Inr flat \<Rightarrow> (Inr (), json_clone flat))"

section \<open>Notions used to state the properties\<close>

text \<open>The path of the escaping scenario, \<open>escaped\.key.level.nested\<close>.\<close>

definition escaped_path :: string where
  "escaped_path = ''escaped'' @ [backslash] @ ''.key.level.nested''"

text \<open>A value in which every array is replaced by the object of its indices.\<close>

fun arrays_as_mappings :: "jv \<Rightarrow> jv" where
  "arrays_as_mappings (JArr xs) =
     JObj (zip (index_keys (length xs)) (map arrays_as_mappings xs))"
| "arrays_as_mappings (JObj ps) = JObj (map (\<lambda>(k, v). (k, arrays_as_mappings v)) ps)"
| "arrays_as_mappings v = v"


text \<open>The criteria object \<open>{ path: p }\<close>.\<close>

definition path_only :: "string \<Rightarrow> criteria" where
  "path_only p = \<lparr>crit_path = Some p, crit_like = None, crit_keywords = None, crit_regex = None\<rparr>"

text \<open>
  The nodes of a tree in pre-order, as the specification of the deep search reads: every key
  at every depth with its generated path and its value (for an intermediate node, its whole
  subtree), a node before its children, siblings in the enumeration order of their parent.
\<close>

function preorder :: "props \<Rightarrow> string \<Rightarrow> (string \<times> jv) list" where
  "preorder [] currentPath = []"
| "preorder ((key, v) # rest) currentPath =
     (join_key currentPath key, v)
     # (if typeof v = TObject \<and> v \<noteq> JNull
        then preorder (own_props v) (join_key currentPath key) else [])
     @ preorder rest currentPath"
  by pat_completeness auto
termination
proof (relation "measure (\<lambda>(ps, currentPath). size_list (\<lambda>(k, v). size v) ps)")
  have obj: "size_list (\<lambda>(k, v). size v) ps \<le> size_list (size_prod (\<lambda>x. 0) size) ps"
    for ps :: props
    by (induction ps) auto
  have arr: "size_list (\<lambda>(k, v). size v) (zip ks xs) \<le> size_list size xs"
    for ks :: "string list" and xs :: "jv list"
  proof (induction xs arbitrary: ks)
    case Nil
    show ?case by simp
  next
    case (Cons x xs)
    from Cons[of "tl ks"] show ?case by (cases ks) auto
  qed
  have own: "size_list (\<lambda>(k, v). size v) (own_props v) \<le> size v" for v
  proof (cases v)
    case (JObj ps)
    with obj[of ps] show ?thesis by simp
  next
    case (JArr xs)
    with arr[of "index_keys (length xs)" xs] show ?thesis by simp
  qed simp_all
  fix key :: string and v :: jv and rest :: props and currentPath :: string
  show "((own_props v, join_key currentPath key), (key, v) # rest, currentPath)
        \<in> measure (\<lambda>(ps, currentPath). size_list (\<lambda>(k, v). size v) ps)"
    using own[of v] by simp
  show "((rest, currentPath), (key, v) # rest, currentPath)
        \<in> measure (\<lambda>(ps, currentPath). size_list (\<lambda>(k, v). size v) ps)"
    by simp
qed simp

text \<open>
  The matches that one node contributes: one copy of the node for each criterion that it
  satisfies.
\<close>

definition node_matches :: "criteria \<Rightarrow> string \<times> jv \<Rightarrow> match list" where
  "node_matches c n =
     replicate (length (filter (\<lambda>b. b)
        [like_matches c (fst n), keywords_match c (fst n) (snd n), regex_matches c (fst n)])) n"







text \<open>
  The store of the search tests of the repository, after \<open>write("nest.secondnest.third.value", 42)\<close>,
  \<open>write("example.like.path", "test")\<close> and \<open>write("escaped\.key.level", "value")\<close>.
\<close>

definition search_store :: store where
  "search_store = JObj
     [(''nest'', JObj [(''secondnest'', JObj [(''third'', JObj [(''value'', JNum 42)])])]),
      (''example'', JObj [(''like'', JObj [(''path'', JStr ''test'')])]),
      (''escaped.key'', JObj [(''level'', JStr ''value'')])]"

section \<open>Reference model: the store, dump and sharing\<close>

text \<open>
  Objects and arrays are mutable and are passed by reference: \<open>unflattenJson\<close> stores in its
  result the very objects that its argument holds, and \<open>dump\<close> copies that result with
  \<open>JSON.parse(JSON.stringify(...))\<close>. The reference model makes this visible. A heap is a list
  of cells, the address of a cell is its index; a value is a primitive or the address of a
  cell; a cell is an object (its properties) or an array (its elements).
\<close>

type_synonym addr = nat

datatype rv = RUndefined | RNull | RBool bool | RNum int | RStr string | RRef addr

datatype cell = CObj "(string \<times> rv) list" | CArr "rv list"

type_synonym heap = "cell list"

fun r_typeof :: "rv \<Rightarrow> jstype" where
  "r_typeof RUndefined = TUndefined"
| "r_typeof RNull = TObject"
| "r_typeof (RBool b) = TBoolean"
| "r_typeof (RNum n) = TNumber"
| "r_typeof (RStr s) = TString"
| "r_typeof (RRef a) = TObject"

fun r_truthy :: "rv \<Rightarrow> bool" where
  "r_truthy RUndefined = False"
| "r_truthy RNull = False"
| "r_truthy (RBool b) = b"
| "r_truthy (RNum n) = (n \<noteq> 0)"
| "r_truthy (RStr s) = (s \<noteq> [])"
| "r_truthy (RRef a) = True"

text \<open>
  A new object or array is a new cell at the end of the heap.
\<close>

definition alloc :: "cell \<Rightarrow> heap \<Rightarrow> heap \<times> addr" where
  "alloc c h = (h @ [c], length h)"

text \<open>
  The own properties of a cell, \<open>key in cell\<close>, \<open>cell[key]\<close> and \<open>cell[key] = v\<close>, as for the
  tree values above.
\<close>

fun cell_props :: "cell \<Rightarrow> (string \<times> rv) list" where
  "cell_props (CObj ps) = ps"
| "cell_props (CArr xs) = zip (index_keys (length xs)) xs"

fun cell_has :: "string \<Rightarrow> cell \<Rightarrow> bool" where
  "cell_has key (CObj ps) = (map_of ps key \<noteq> None)"
| "cell_has key (CArr xs) = (key = ''length'' \<or> map_of (cell_props (CArr xs)) key \<noteq> None)"

fun cell_get :: "cell \<Rightarrow> string \<Rightarrow> rv" where
  "cell_get (CObj ps) key = (case map_of ps key of Some v \<Rightarrow> v | None \<Rightarrow> RUndefined)"
| "cell_get (CArr xs) key =
     (if key = ''length'' then RNum (int (length xs))
      else case map_of (cell_props (CArr xs)) key of Some v \<Rightarrow> v | None \<Rightarrow> RUndefined)"

fun cell_set :: "cell \<Rightarrow> string \<Rightarrow> rv \<Rightarrow> error + cell" where
  "cell_set (CObj ps) key v = Inr (CObj (obj_set ps key v))"
| "cell_set (CArr xs) key v =
     (if key = ''length'' then Inl Unmodelled
      else if key \<in> set (index_keys (length xs))
        then Inr (CArr (map (\<lambda>(k, x). if k = key then v else x) (cell_props (CArr xs))))
      else if key = string_of_nat (length xs) then Inr (CArr (xs @ [v]))
      else Inl Unmodelled)"

text \<open>
  The same three operations on a value: through the heap when the value is a reference.
\<close>

definition h_has_property :: "heap \<Rightarrow> string \<Rightarrow> rv \<Rightarrow> bool" where
  "h_has_property h key current =
     (case current of RRef a \<Rightarrow> a < length h \<and> cell_has key (h ! a) | _ \<Rightarrow> False)"

definition h_get_property :: "heap \<Rightarrow> rv \<Rightarrow> string \<Rightarrow> rv" where
  "h_get_property h current key =
     (case current of
        RRef a \<Rightarrow> if a < length h then cell_get (h ! a) key else RUndefined
      | _ \<Rightarrow> RUndefined)"

definition h_set_property :: "heap \<Rightarrow> rv \<Rightarrow> string \<Rightarrow> rv \<Rightarrow> error + heap" where
  "h_set_property h current key v =
     (case current of
        RRef a \<Rightarrow>
          if a < length h then
            (case cell_set (h ! a) key v of Inl e \<Rightarrow> Inl e | Inr c \<Rightarrow> Inr (h[a := c]))
          else Inl Unmodelled
      | _ \<Rightarrow> Inl Unmodelled)"

text \<open>
  The \<open>keys.forEach\<close> loop of \<open>setNestedValueWithEscaping\<close> and \<open>unflattenJson\<close>, mutating the
  heap in place: \<open>current[key] = {}\<close> allocates a new object and stores its reference,
  \<open>current = current[key]\<close> follows a reference.
\<close>

fun h_assign_path :: "heap \<Rightarrow> rv \<Rightarrow> string list \<Rightarrow> rv \<Rightarrow> error + heap" where
  "h_assign_path h current [] v = Inr h"
| "h_assign_path h current [key] v = h_set_property h current key v"
| "h_assign_path h current (key # keys) v =
     (let child = h_get_property h current key
      in if \<not> r_truthy child \<or> r_typeof child \<noteq> TObject then
           (let (h1, a) = alloc (CObj []) h
            in case h_set_property h1 current key (RRef a) of
                 Inl e \<Rightarrow> Inl e
               | Inr h2 \<Rightarrow> h_assign_path h2 (h_get_property h2 current key) keys v)
         else h_assign_path h child keys v)"

text \<open>
  \<open>unflattenJson(obj)\<close>: \<open>result\<close> is a new object; for each own key of \<open>obj\<close> the value
  \<open>obj[fullKey]\<close>, a reference when it is an object, is assigned into \<open>result\<close>.
\<close>

fun h_unflatten_loop :: "heap \<Rightarrow> rv \<Rightarrow> rv \<Rightarrow> string list \<Rightarrow> error + heap" where
  "h_unflatten_loop h obj result [] = Inr h"
| "h_unflatten_loop h obj result (fullKey # rest) =
     (case h_assign_path h result (getKeys fullKey) (h_get_property h obj fullKey) of
        Inl e \<Rightarrow> Inl e
      | Inr h' \<Rightarrow> h_unflatten_loop h' obj result rest)"

definition h_own_keys :: "heap \<Rightarrow> rv \<Rightarrow> string list" where
  "h_own_keys h obj =
     (case obj of RRef a \<Rightarrow> if a < length h then map fst (cell_props (h ! a)) else [] | _ \<Rightarrow> [])"

definition h_unflattenJson :: "heap \<Rightarrow> rv \<Rightarrow> error + heap \<times> rv" where
  "h_unflattenJson h obj =
     (if r_typeof obj \<noteq> TObject \<or> obj = RNull
        then Inl (Error ''Input must be a non-null object.'')
      else (let (h1, a) = alloc (CObj []) h
            in case h_unflatten_loop h1 obj (RRef a) (h_own_keys h1 obj) of
                 Inl e \<Rightarrow> Inl e
               | Inr h2 \<Rightarrow> Inr (h2, RRef a)))"

text \<open>
  \<open>JSON.stringify\<close> reads the structure below a value into a tree; it keeps the stack of the
  objects it is inside and raises a \<open>TypeError\<close> when it meets one of them again. As in
  \<open>json_clone\<close>, \<open>undefined\<close> properties are left out and \<open>undefined\<close> elements become \<open>null\<close>.
\<close>

fun collect_results :: "(error + 'a) list \<Rightarrow> error + 'a list" where
  "collect_results [] = Inr []"
| "collect_results (Inl e # rs) = Inl e"
| "collect_results (Inr x # rs) = (case collect_results rs of Inl e \<Rightarrow> Inl e | Inr xs \<Rightarrow> Inr (x # xs))"

function h_stringify :: "heap \<Rightarrow> addr list \<Rightarrow> rv \<Rightarrow> error + jv" where
  "h_stringify h stack RUndefined = Inr JUndefined"
| "h_stringify h stack RNull = Inr JNull"
| "h_stringify h stack (RBool b) = Inr (JBool b)"
| "h_stringify h stack (RNum n) = Inr (JNum n)"
| "h_stringify h stack (RStr s) = Inr (JStr s)"
| "h_stringify h stack (RRef a) =
     (if a \<in> set stack then Inl TypeError
      else if \<not> a < length h then Inl Unmodelled
      else case h ! a of
        CObj ps \<Rightarrow>
          (case collect_results (map (\<lambda>kw. case h_stringify h (a # stack) (snd kw) of
                                       Inl e \<Rightarrow> Inl e
                                     | Inr t \<Rightarrow> Inr (fst kw, t))
                              (filter (\<lambda>kw. snd kw \<noteq> RUndefined) ps)) of
             Inl e \<Rightarrow> Inl e
           | Inr qs \<Rightarrow> Inr (JObj qs))
      | CArr xs \<Rightarrow>
          (case collect_results (map (\<lambda>w. if w = RUndefined then Inr JNull
                                    else h_stringify h (a # stack) w) xs) of
             Inl e \<Rightarrow> Inl e
           | Inr ys \<Rightarrow> Inr (JArr ys)))"
  by pat_completeness auto
termination
proof (relation "measure (\<lambda>(h, stack, v). card ({..<length h} - set stack))")
  show "wf (measure (\<lambda>(h, stack, v). card ({..<length h} - set stack)))" by simp
next
  fix h :: heap and stack :: "addr list" and a :: addr
  assume "a \<notin> set stack" "\<not> \<not> a < length h"
  then have "card ({..<length h} - set (a # stack)) < card ({..<length h} - set stack)"
    by (intro psubset_card_mono) auto
  then show "((h, a # stack, w), h, stack, RRef a)
      \<in> measure (\<lambda>(h, stack, v). card ({..<length h} - set stack))" for w
    by simp
  then show "((h, a # stack, w), h, stack, RRef a)
      \<in> measure (\<lambda>(h, stack, v). card ({..<length h} - set stack))" for w
    by simp
qed

text \<open>
  \<open>JSON.parse\<close> builds the tree it reads out of new cells.
\<close>

fun h_parse :: "heap \<Rightarrow> jv \<Rightarrow> heap \<times> rv"
  and h_parse_props :: "heap \<Rightarrow> props \<Rightarrow> heap \<times> (string \<times> rv) list"
  and h_parse_elems :: "heap \<Rightarrow> jv list \<Rightarrow> heap \<times> rv list" where
  "h_parse h JUndefined = (h, RUndefined)"
| "h_parse h JNull = (h, RNull)"
| "h_parse h (JBool b) = (h, RBool b)"
| "h_parse h (JNum n) = (h, RNum n)"
| "h_parse h (JStr s) = (h, RStr s)"
| "h_parse h (JObj ps) =
     (let (h1, qs) = h_parse_props h ps; (h2, a) = alloc (CObj qs) h1 in (h2, RRef a))"
| "h_parse h (JArr xs) =
     (let (h1, ys) = h_parse_elems h xs; (h2, a) = alloc (CArr ys) h1 in (h2, RRef a))"
| "h_parse_props h [] = (h, [])"
| "h_parse_props h ((k, t) # ps) =
     (let (h1, v) = h_parse h t; (h2, qs) = h_parse_props h1 ps in (h2, (k, v) # qs))"
| "h_parse_elems h [] = (h, [])"
| "h_parse_elems h (t # xs) =
     (let (h1, v) = h_parse h t; (h2, ys) = h_parse_elems h1 xs in (h2, v # ys))"

text \<open>
  \<open>dump()\<close>, \<open>read(path)\<close> and \<open>write(path, value)\<close> of a manager whose \<open>jsonObject\<close> is the cell
  at the address \<open>jsonObject\<close>.
\<close>

definition h_dump :: "heap \<Rightarrow> addr \<Rightarrow> error + heap \<times> rv" where
  "h_dump h jsonObject =
     (case h_unflattenJson h (RRef jsonObject) of
        Inl e \<Rightarrow> Inl e
      | Inr (h1, nested) \<Rightarrow>
          (case h_stringify h1 [] nested of
             Inl e \<Rightarrow> Inl e
           | Inr json \<Rightarrow> Inr (h_parse h1 json)))"

fun h_getNested_loop :: "heap \<Rightarrow> rv \<Rightarrow> string list \<Rightarrow> rv option" where
  "h_getNested_loop h current [] = Some current"
| "h_getNested_loop h current (key # keys) =
     (if r_truthy current \<and> r_typeof current = TObject \<and> h_has_property h key current
        then h_getNested_loop h (h_get_property h current key) keys
      else None)"

definition h_read :: "heap \<Rightarrow> addr \<Rightarrow> jv \<Rightarrow> error + rv" where
  "h_read h jsonObject path =
     (case path of
        JStr p \<Rightarrow>
          (case h_getNested_loop h (RRef jsonObject) (getKeys p) of
             Some current \<Rightarrow> Inr current
           | None \<Rightarrow> Inr RUndefined)
      | _ \<Rightarrow> Inl (Error ''Path must be a string.''))"

definition h_write :: "heap \<Rightarrow> addr \<Rightarrow> jv \<Rightarrow> rv \<Rightarrow> error + heap" where
  "h_write h jsonObject path v =
     (case path of
        JStr p \<Rightarrow> h_assign_path h (RRef jsonObject) (getKeys p) v
      | _ \<Rightarrow> Inl (Error ''Path must be a string.''))"

text \<open>
  What a caller can do to the object that \<open>dump()\<close> returned: assign to a property, or delete a
  property, of the dumped object or of an object reached from it through a list of keys
  (\<open>dumped.a.b\<close>). The assigned value is a newly built value (a primitive, an object or array
  literal) or a value found in the dumped structure itself.
\<close>

datatype operand = Fresh jv | Found "string list"

datatype mutation =
    SetProperty "string list" string operand
  | DeleteProperty "string list" string

fun cell_delete :: "cell \<Rightarrow> string \<Rightarrow> cell option" where
  "cell_delete (CObj ps) key = Some (CObj (filter (\<lambda>kv. fst kv \<noteq> key) ps))"
| "cell_delete (CArr xs) key = None"

fun eval_operand :: "heap \<Rightarrow> rv \<Rightarrow> operand \<Rightarrow> (heap \<times> rv) option" where
  "eval_operand h dumped (Fresh t) = Some (h_parse h t)"
| "eval_operand h dumped (Found keys) =
     (case h_getNested_loop h dumped keys of Some v \<Rightarrow> Some (h, v) | None \<Rightarrow> None)"

fun apply_mutation :: "rv \<Rightarrow> heap \<Rightarrow> mutation \<Rightarrow> heap" where
  "apply_mutation dumped h (SetProperty target key operand) =
     (case h_getNested_loop h dumped target of
        Some obj \<Rightarrow>
          (case eval_operand h dumped operand of
             Some (h1, v) \<Rightarrow>
               (case h_set_property h1 obj key v of Inr h2 \<Rightarrow> h2 | Inl e \<Rightarrow> h)
           | None \<Rightarrow> h)
      | None \<Rightarrow> h)"
| "apply_mutation dumped h (DeleteProperty target key) =
     (case h_getNested_loop h dumped target of
        Some (RRef a) \<Rightarrow>
          (if a < length h then
             (case cell_delete (h ! a) key of Some c \<Rightarrow> h[a := c] | None \<Rightarrow> h)
           else h)
      | _ \<Rightarrow> h)"

definition apply_mutations :: "rv \<Rightarrow> heap \<Rightarrow> mutation list \<Rightarrow> heap" where
  "apply_mutations dumped h ms = foldl (apply_mutation dumped) h ms"

text \<open>
  A value is valid between \<open>lo\<close> and \<open>hi\<close> when it is a primitive or refers to a cell with an
  address from \<open>lo\<close> up to \<open>hi\<close> (excluded). The cells from \<open>lo\<close> on form a closed region when
  they hold such values only. A heap is well formed when every reference in it is the address
  of one of its cells.
\<close>

definition valid_value :: "nat \<Rightarrow> nat \<Rightarrow> rv \<Rightarrow> bool" where
  "valid_value lo hi v = (case v of RRef a \<Rightarrow> lo \<le> a \<and> a < hi | _ \<Rightarrow> True)"

fun cell_values :: "cell \<Rightarrow> rv list" where
  "cell_values (CObj ps) = map snd ps"
| "cell_values (CArr xs) = xs"

definition region_closed :: "nat \<Rightarrow> heap \<Rightarrow> bool" where
  "region_closed lo h =
     list_all (\<lambda>c. list_all (valid_value lo (length h)) (cell_values c)) (drop lo h)"

definition wf_heap :: "heap \<Rightarrow> bool" where
  "wf_heap h = region_closed 0 h"

section \<open>Basic facts about property access\<close>




lemma map_of_obj_set_other: "k \<noteq> key \<Longrightarrow> map_of (obj_set ps key v) k = map_of ps k"
  by (induction ps) auto



lemma length_index_keys [simp]: "length (index_keys n) = n"
  by (simp add: index_keys_def)



section \<open>Write, then read\<close>





section \<open>Read and search\<close>

lemma getNested_loop_eq_searchNested_loop:
  "getNested_loop current keys = searchNested_loop current keys"
  by (induction current keys rule: getNested_loop.induct) simp_all

text \<open>
  Claim C6. For every state of the store and every path argument (a string or not),
  \<open>read(path)\<close> and \<open>search(path)\<close> have the same outcome: the same value, the same
  \<open>undefined\<close> for an absent path, the same error.
\<close>

theorem read_search_identical: "read jsonObject path = search jsonObject path"
  by (cases path) (simp_all add: read_def search_def getNestedValueWithEscaping_def
      searchNestedValueWithEscaping_def getNested_loop_eq_searchNested_loop)

theorem read_search_identical_witness:
  "read (JObj [(''nest'', JObj [(''third'', JNum 10)])]) (JStr ''nest.fakekey'')
     = search (JObj [(''nest'', JObj [(''third'', JNum 10)])]) (JStr ''nest.fakekey'')"
  by (rule read_search_identical)

section \<open>Write with a path that is not a string\<close>

text \<open>
  Claim C8. For every tree and every path argument that is not a string, Write raises an
  error and leaves the tree as it was; when the tree is an object the error is the one about
  the path.
\<close>

theorem write_non_string_path:
  assumes "typeof path \<noteq> TString"
  shows "(\<exists>msg. setNestedValueWithEscaping obj path v = (Inl (Error msg), obj))
       \<and> (typeof obj = TObject \<and> obj \<noteq> JNull \<longrightarrow>
          setNestedValueWithEscaping obj path v = (Inl (Error ''Path must be a string.''), obj))"
  using assms by (cases path) (simp_all add: setNestedValueWithEscaping_def)

theorem write_non_string_path_witness:
  "typeof (JNum 7) \<noteq> TString
   \<and> setNestedValueWithEscaping (JObj [(''key'', JNum 1)]) (JNum 7) (JStr ''x'')
       = (Inl (Error ''Path must be a string.''), JObj [(''key'', JNum 1)])"
proof -
  have h: "typeof (JNum 7) \<noteq> TString" by simp
  from write_non_string_path[OF h, of "JObj [(''key'', JNum 1)]" "JStr ''x''"] h
  show ?thesis by simp
qed

section \<open>The escaping scenario\<close>

lemma getKeys_escaped_path: "getKeys escaped_path = [''escaped.key'', ''level'', ''nested'']"
  by (simp add: getKeys_def escaped_path_def dot_def backslash_def)

lemma getKeys_escaped_key: "getKeys ''escaped.key'' = [''escaped'', ''key'']"
  by (simp add: getKeys_def dot_def backslash_def)

lemma getKeys_unescaped:
  "getKeys ''escaped.key.level.nested'' = [''escaped'', ''key'', ''level'', ''nested'']"
  by (simp add: getKeys_def dot_def backslash_def)

text \<open>
  Claim C2, as amended. On a new store, \<open>write("escaped\.key.level.nested", x)\<close> leaves the
  owned tree nested, with the single top-level key \<open>escaped.key\<close>; reading the same path
  returns \<open>x\<close>, and the path \<open>escaped.key.level.nested\<close> without the escape is absent. The
  owned tree is not flattened, and \<open>dump()\<close> splits its top-level keys at their dots once
  more: the dumped tree has the top-level key \<open>escaped\<close>, whose child is \<open>key\<close>.
\<close>

theorem escaped_write_read_dump:
  "write_value createJsonManager (JStr escaped_path) (JStr x)
     = (Inr (), JObj [(''escaped.key'', JObj [(''level'', JObj [(''nested'', JStr x)])])])
   \<and> read (JObj [(''escaped.key'', JObj [(''level'', JObj [(''nested'', JStr x)])])])
        (JStr escaped_path) = Inr (JStr x)
   \<and> read (JObj [(''escaped.key'', JObj [(''level'', JObj [(''nested'', JStr x)])])])
        (JStr ''escaped.key.level.nested'') = Inr JUndefined
   \<and> dump (JObj [(''escaped.key'', JObj [(''level'', JObj [(''nested'', JStr x)])])])
        = Inr (JObj [(''escaped'',
             JObj [(''key'', JObj [(''level'', JObj [(''nested'', JStr x)])])])])"
  by (simp add: write_value_def createJsonManager_def setNestedValueWithEscaping_def read_def
      getNestedValueWithEscaping_def dump_def unflattenJson_def getKeys_escaped_path
      getKeys_escaped_key getKeys_unescaped)

theorem escaped_write_read_dump_witness:
  "write_value createJsonManager (JStr escaped_path) (JStr ''test'')
     = (Inr (), JObj [(''escaped.key'', JObj [(''level'', JObj [(''nested'', JStr ''test'')])])])
   \<and> read (JObj [(''escaped.key'', JObj [(''level'', JObj [(''nested'', JStr ''test'')])])])
        (JStr escaped_path) = Inr (JStr ''test'')
   \<and> read (JObj [(''escaped.key'', JObj [(''level'', JObj [(''nested'', JStr ''test'')])])])
        (JStr ''escaped.key.level.nested'') = Inr JUndefined
   \<and> dump (JObj [(''escaped.key'', JObj [(''level'', JObj [(''nested'', JStr ''test'')])])])
        = Inr (JObj [(''escaped'',
             JObj [(''key'', JObj [(''level'', JObj [(''nested'', JStr ''test'')])])])])"
  by (rule escaped_write_read_dump)

text \<open>
  Claim C2 as stated fails: after the write of the scenario, the tree that \<open>dump()\<close> returns
  has the top-level key \<open>escaped\<close> and no key \<open>escaped.key\<close>.
\<close>

theorem dump_top_level_key_counterexample:
  "dump (snd (write_value createJsonManager (JStr escaped_path) (JStr ''x'')))
     = Inr (JObj [(''escaped'',
          JObj [(''key'', JObj [(''level'', JObj [(''nested'', JStr ''x'')])])])])
   \<and> \<not> has_property ''escaped.key''
        (JObj [(''escaped'',
          JObj [(''key'', JObj [(''level'', JObj [(''nested'', JStr ''x'')])])])])"
  by (simp add: write_value_def createJsonManager_def setNestedValueWithEscaping_def
      dump_def unflattenJson_def getKeys_escaped_path getKeys_escaped_key)

section \<open>Flatten and arrays\<close>

lemma typeof_arrays_as_mappings [simp]: "typeof (arrays_as_mappings v) = typeof v"
  by (cases v) simp_all

lemma arrays_as_mappings_null [simp]: "(arrays_as_mappings v = JNull) = (v = JNull)"
  by (cases v) simp_all







section \<open>Search by path\<close>

text \<open>
  Claim C4 fails on the code. The store holds the single key \<open>a.b\<close>, written with the path
  \<open>a\.b\<close>; reading that path returns the value, and \<open>has({path})\<close> with the same path returns
  no match, because \<open>searchPath\<close> removes the escapes before it splits at every dot.
\<close>

theorem has_path_escaped_dot:
  "write_value createJsonManager (JStr (''a'' @ [backslash] @ ''.b'')) (JNum 1)
     = (Inr (), JObj [(''a.b'', JNum 1)])
   \<and> read (JObj [(''a.b'', JNum 1)]) (JStr (''a'' @ [backslash] @ ''.b'')) = Inr (JNum 1)
   \<and> has (JObj [(''a.b'', JNum 1)]) (path_only (''a'' @ [backslash] @ ''.b'')) = Inr []"
  by (simp add: write_value_def createJsonManager_def setNestedValueWithEscaping_def read_def
      getNestedValueWithEscaping_def has_def searchJson_def path_search_def searchPath_def
      path_only_def escapeDots_def getKeys_def dot_def backslash_def deep_requested_def)




section \<open>Deep search\<close>

lemma deepSearch_preorder:
  "deepSearch c ps currentPath = concat (map (node_matches c) (preorder ps currentPath))"
proof (induction c ps currentPath rule: deepSearch.induct)
  case (1 c currentPath)
  show ?case by simp
next
  case (2 c key v rest currentPath)
  then show ?case by (simp add: node_matches_def Let_def)
qed

text \<open>
  Claim C7. When \<open>like\<close>, \<open>keywords\<close> or \<open>regex\<close> is given (and truthy: an empty \<open>like\<close> string
  counts as not given, as for every option tested with \<open>if\<close>), the matches that \<open>has\<close> appends
  after those of the path search are the matches of the nodes of the tree taken in pre-order:
  every key at every depth, an intermediate node with its whole subtree as value and before
  its children, and each node once for each criterion that it satisfies.
\<close>

theorem has_deep_search:
  "has jsonObject c =
     (case path_search jsonObject c of
        Inl e \<Rightarrow> Inl e
      | Inr found \<Rightarrow>
          Inr (found @ (if deep_requested c
                        then concat (map (node_matches c) (preorder (own_props jsonObject) []))
                        else [])))"
  by (cases "path_search jsonObject c") (simp_all add: has_def searchJson_def deepSearch_preorder)

theorem has_deep_search_witness:
  "has (JObj [(''example'', JObj [(''like'', JObj [(''path'', JStr ''test'')])])])
       \<lparr>crit_path = None, crit_like = Some ''like'', crit_keywords = Some [''path''],
        crit_regex = None\<rparr>
   = Inr [(''example.like'', JObj [(''path'', JStr ''test'')]),
          (''example.like.path'', JStr ''test''),
          (''example.like.path'', JStr ''test'')]"
  using has_deep_search[of "JObj [(''example'', JObj [(''like'', JObj [(''path'', JStr ''test'')])])]"
      "\<lparr>crit_path = None, crit_like = Some ''like'', crit_keywords = Some [''path''],
        crit_regex = None\<rparr>"]
  by (simp add: path_search_def deep_requested_def node_matches_def like_matches_def
      keywords_match_def regex_matches_def join_key_def dot_def)

section \<open>Round trip through Flatten and Unflatten\<close>

subsection \<open>Escaping one key, splitting a joined path\<close>









lemma escapeKey_Nil_iff [simp]: "(escapeKey k = []) = (k = [])"
  by (cases k) auto





subsection \<open>Flatten lists the leaves, Unflatten assigns them\<close>


















text \<open>
  The two other conditions are needed as well. An empty prefix is falsy in
  \<open>keyPrefix ? ... : escapedKey\<close>, so the level of an empty top-level key is lost; and an empty
  array leaves no trace, like an empty mapping.
\<close>

lemma round_trip_needs_top_level_key:
  "flattenJsonWithEscaping (JObj [([], JObj [(''b'', JNum 1)])]) [] = Inr (JObj [(''b'', JNum 1)])
   \<and> unflattenJson (JObj [(''b'', JNum 1)]) = Inr (JObj [(''b'', JNum 1)])"
  by (simp add: flattenJsonWithEscaping_def unflattenJson_def join_key_def getKeys_def
      dot_def backslash_def)

lemma round_trip_needs_no_array:
  "flattenJsonWithEscaping (JObj [(''a'', JArr [JNum 1]), (''b'', JArr [])]) []
     = Inr (JObj [(''a.0'', JNum 1)])
   \<and> unflattenJson (JObj [(''a.0'', JNum 1)]) = Inr (JObj [(''a'', JObj [(''0'', JNum 1)])])"
  by (simp add: flattenJsonWithEscaping_def unflattenJson_def join_key_def getKeys_def
      index_keys_def string_of_nat.simps dot_def backslash_def)

section \<open>The dumped object is detached from the store\<close>

subsection \<open>Closed regions of the heap\<close>

lemma region_closed_iff:
  "region_closed lo h =
     (\<forall>a. lo \<le> a \<and> a < length h \<longrightarrow> (\<forall>v \<in> set (cell_values (h ! a)). valid_value lo (length h) v))"
proof -
  have "set (drop lo h) = {h ! a | a. lo \<le> a \<and> a < length h}"
    by (auto simp: set_conv_nth) (metis add.commute less_diff_conv le_Suc_ex)+
  then show ?thesis by (auto simp: region_closed_def list_all_iff)
qed

lemma valid_value_mono:
  "valid_value lo hi v \<Longrightarrow> lo' \<le> lo \<Longrightarrow> hi \<le> hi' \<Longrightarrow> valid_value lo' hi' v"
  by (cases v) (auto simp: valid_value_def)

lemma valid_prim [simp]:
  "valid_value lo hi RUndefined" "valid_value lo hi RNull" "valid_value lo hi (RBool b)"
  "valid_value lo hi (RNum n)" "valid_value lo hi (RStr s)"
  by (simp_all add: valid_value_def)

lemma valid_ref [simp]: "valid_value lo hi (RRef a) = (lo \<le> a \<and> a < hi)"
  by (simp add: valid_value_def)

lemma map_of_zip_in_set: "map_of (zip ks xs) key = Some v \<Longrightarrow> v \<in> set xs"
  by (auto dest: map_of_SomeD set_zip_rightD)

lemma cell_get_valid:
  assumes a: "\<forall>v \<in> set (cell_values c). valid_value lo hi v"
  shows "valid_value lo hi (cell_get c key)"
proof (cases c)
  case (CObj ps)
  show ?thesis
  proof (cases "map_of ps key")
    case None
    with CObj show ?thesis by simp
  next
    case (Some v)
    then have "v \<in> set (cell_values c)" using CObj by (force dest: map_of_SomeD)
    with a have "valid_value lo hi v" by blast
    with CObj Some show ?thesis by simp
  qed
next
  case (CArr xs)
  from a CArr have "\<forall>v \<in> set xs. valid_value lo hi v" by simp
  then show ?thesis using CArr
    by (auto split: option.splits dest!: map_of_zip_in_set)
qed

lemma set_obj_set: "set (obj_set ps key v) \<subseteq> insert (key, v) (set ps)"
proof (induction ps)
  case Nil
  show ?case by simp
next
  case (Cons p ps)
  obtain k w where p: "p = (k, w)" by (cases p)
  show ?case
  proof (cases "k = key")
    case True
    with p show ?thesis by auto
  next
    case False
    with p Cons show ?thesis by auto
  qed
qed

lemma set_obj_set_values: "snd ` set (obj_set ps key v) \<subseteq> insert v (snd ` set ps)"
  using set_obj_set[of ps key v] by force

lemma cell_set_valid:
  assumes "cell_set c key v = Inr c'" and "\<forall>w \<in> set (cell_values c). valid_value lo hi w"
    and "valid_value lo hi v"
  shows "\<forall>w \<in> set (cell_values c'). valid_value lo hi w"
proof -
  have "set (cell_values c') \<subseteq> insert v (set (cell_values c))"
  proof (cases c)
    case (CObj ps)
    with assms(1) have "c' = CObj (obj_set ps key v)" by simp
    with set_obj_set_values[of ps key v] CObj show ?thesis by simp
  next
    case (CArr xs)
    with assms(1) consider
      "c' = CArr (map (\<lambda>(k, x). if k = key then v else x) (zip (index_keys (length xs)) xs))"
      | "c' = CArr (xs @ [v])"
      by (auto split: if_splits)
    then show ?thesis
    proof cases
      case 1
      with CArr show ?thesis by (auto dest!: set_zip_rightD)
    next
      case 2
      with CArr show ?thesis by auto
    qed
  qed
  with assms(2,3) show ?thesis by blast
qed

lemma cell_delete_valid:
  assumes "cell_delete c key = Some c'" and "\<forall>w \<in> set (cell_values c). valid_value lo hi w"
  shows "\<forall>w \<in> set (cell_values c'). valid_value lo hi w"
  using assms by (cases c) auto

lemma h_get_property_valid:
  assumes "region_closed lo h" and "valid_value lo (length h) current"
  shows "valid_value lo (length h) (h_get_property h current key)"
proof (cases current)
  case (RRef a)
  show ?thesis
  proof (cases "a < length h")
    case True
    with assms RRef have "\<forall>v \<in> set (cell_values (h ! a)). valid_value lo (length h) v"
      by (simp add: region_closed_iff)
    from cell_get_valid[OF this] RRef True show ?thesis by (simp add: h_get_property_def)
  next
    case False
    with RRef show ?thesis by (simp add: h_get_property_def)
  qed
qed (simp_all add: h_get_property_def)

lemma region_closed_update:
  assumes "region_closed lo h" and "\<forall>w \<in> set (cell_values c). valid_value lo (length h) w"
  shows "region_closed lo (h[a := c])"
  unfolding region_closed_iff
proof (intro allI impI ballI)
  fix b v
  assume b: "lo \<le> b \<and> b < length (h[a := c])" and v: "v \<in> set (cell_values (h[a := c] ! b))"
  show "valid_value lo (length (h[a := c])) v"
  proof (cases "b = a")
    case True
    with b v assms(2) show ?thesis by simp
  next
    case False
    with b v assms(1) show ?thesis by (simp add: region_closed_iff)
  qed
qed

lemma region_closed_alloc:
  assumes "region_closed lo h" and "\<forall>w \<in> set (cell_values c). valid_value lo (Suc (length h)) w"
  shows "region_closed lo (h @ [c])"
  unfolding region_closed_iff
proof (intro allI impI ballI)
  fix b v
  assume b: "lo \<le> b \<and> b < length (h @ [c])" and v: "v \<in> set (cell_values ((h @ [c]) ! b))"
  show "valid_value lo (length (h @ [c])) v"
  proof (cases "b < length h")
    case True
    with b v assms(1) have "valid_value lo (length h) v"
      by (simp add: region_closed_iff nth_append)
    then show ?thesis by (rule valid_value_mono) simp_all
  next
    case False
    with b have "b = length h" by simp
    with v assms(2) show ?thesis by simp
  qed
qed

lemma h_set_property_region:
  assumes "h_set_property h current key v = Inr h'" and "region_closed lo h"
    and "valid_value lo (length h) current" and "valid_value lo (length h) v"
  shows "length h' = length h \<and> take lo h' = take lo h \<and> region_closed lo h'"
proof -
  from assms(1) obtain a c where cur: "current = RRef a" and a: "a < length h"
    and c: "cell_set (h ! a) key v = Inr c" and h': "h' = h[a := c]"
    by (cases current) (auto simp: h_set_property_def split: if_splits sum.splits)
  from assms(3) cur have lo: "lo \<le> a" by simp
  from assms(2) lo a have "\<forall>w \<in> set (cell_values (h ! a)). valid_value lo (length h) w"
    by (simp add: region_closed_iff)
  from cell_set_valid[OF c this assms(4)] assms(2) have "region_closed lo (h[a := c])"
    by (rule region_closed_update[rotated])
  with h' lo show ?thesis by simp
qed

lemma region_closed_empty: "length h \<le> lo \<Longrightarrow> region_closed lo h"
  by (simp add: region_closed_def)

lemma h_parse_region:
  "region_closed lo h \<Longrightarrow> lo \<le> length h \<Longrightarrow> h_parse h t = (h', v) \<Longrightarrow>
     length h \<le> length h' \<and> take (length h) h' = h \<and> region_closed lo h'
     \<and> valid_value lo (length h') v"
  and h_parse_props_region:
  "region_closed lo h \<Longrightarrow> lo \<le> length h \<Longrightarrow> h_parse_props h ps = (h', qs) \<Longrightarrow>
     length h \<le> length h' \<and> take (length h) h' = h \<and> region_closed lo h'
     \<and> (\<forall>w \<in> snd ` set qs. valid_value lo (length h') w)"
  and h_parse_elems_region:
  "region_closed lo h \<Longrightarrow> lo \<le> length h \<Longrightarrow> h_parse_elems h xs = (h', ys) \<Longrightarrow>
     length h \<le> length h' \<and> take (length h) h' = h \<and> region_closed lo h'
     \<and> (\<forall>w \<in> set ys. valid_value lo (length h') w)"
proof (induction h t and h ps and h xs arbitrary: h' v and h' qs and h' ys
    rule: h_parse_h_parse_props_h_parse_elems.induct)
  case (6 h ps)
  obtain h1 qs where p: "h_parse_props h ps = (h1, qs)" by (cases "h_parse_props h ps")
  from "6.IH"[OF "6.prems"(1,2) p]
  have len: "length h \<le> length h1" and tk: "take (length h) h1 = h"
    and rc: "region_closed lo h1" and vals: "\<forall>w \<in> snd ` set qs. valid_value lo (length h1) w"
    by simp_all
  from "6.prems"(3) p have h': "h' = h1 @ [CObj qs]" and v: "v = RRef (length h1)"
    by (simp_all add: alloc_def)
  have "\<forall>w \<in> set (cell_values (CObj qs)). valid_value lo (Suc (length h1)) w"
    using vals by (auto intro: valid_value_mono)
  from region_closed_alloc[OF rc this] len tk h' v "6.prems"(2) show ?case by simp
next
  case (7 h xs)
  obtain h1 ys where p: "h_parse_elems h xs = (h1, ys)" by (cases "h_parse_elems h xs")
  from "7.IH"[OF "7.prems"(1,2) p]
  have len: "length h \<le> length h1" and tk: "take (length h) h1 = h"
    and rc: "region_closed lo h1" and vals: "\<forall>w \<in> set ys. valid_value lo (length h1) w"
    by simp_all
  from "7.prems"(3) p have h': "h' = h1 @ [CArr ys]" and v: "v = RRef (length h1)"
    by (simp_all add: alloc_def)
  have "\<forall>w \<in> set (cell_values (CArr ys)). valid_value lo (Suc (length h1)) w"
    using vals by (auto intro: valid_value_mono)
  from region_closed_alloc[OF rc this] len tk h' v "7.prems"(2) show ?case by simp
next
  case (9 h k t ps)
  obtain h1 v1 where p1: "h_parse h t = (h1, v1)" by (cases "h_parse h t")
  obtain h2 qs2 where p2: "h_parse_props h1 ps = (h2, qs2)" by (cases "h_parse_props h1 ps")
  from "9.IH"(1)[OF "9.prems"(1,2) p1]
  have len1: "length h \<le> length h1" and tk1: "take (length h) h1 = h"
    and rc1: "region_closed lo h1" and v1: "valid_value lo (length h1) v1"
    by simp_all
  from len1 "9.prems"(2) have lo1: "lo \<le> length h1" by simp
  from "9.IH"(2)[OF p1[symmetric] refl rc1 lo1 p2]
  have len2: "length h1 \<le> length h2" and tk2: "take (length h1) h2 = h1"
    and rc2: "region_closed lo h2" and vals: "\<forall>w \<in> snd ` set qs2. valid_value lo (length h2) w"
    by simp_all
  from "9.prems"(3) p1 p2 have h': "h' = h2" and qs: "qs = (k, v1) # qs2" by simp_all
  have "take (length h) h2 = take (length h) (take (length h1) h2)"
    using len1 by (simp add: min_def)
  also have "\<dots> = h" by (simp only: tk2 tk1)
  finally have tk: "take (length h) h2 = h" .
  from valid_value_mono[OF v1 le_refl len2] have v1': "valid_value lo (length h2) v1" .
  from len1 len2 have len: "length h \<le> length h2" by simp
  from vals v1' have all: "\<forall>w \<in> snd ` set ((k, v1) # qs2). valid_value lo (length h2) w"
    by simp
  from len tk rc2 all show ?case unfolding h' qs by blast
next
  case (11 h t xs)
  obtain h1 v1 where p1: "h_parse h t = (h1, v1)" by (cases "h_parse h t")
  obtain h2 ys2 where p2: "h_parse_elems h1 xs = (h2, ys2)" by (cases "h_parse_elems h1 xs")
  from "11.IH"(1)[OF "11.prems"(1,2) p1]
  have len1: "length h \<le> length h1" and tk1: "take (length h) h1 = h"
    and rc1: "region_closed lo h1" and v1: "valid_value lo (length h1) v1"
    by simp_all
  from len1 "11.prems"(2) have lo1: "lo \<le> length h1" by simp
  from "11.IH"(2)[OF p1[symmetric] refl rc1 lo1 p2]
  have len2: "length h1 \<le> length h2" and tk2: "take (length h1) h2 = h1"
    and rc2: "region_closed lo h2" and vals: "\<forall>w \<in> set ys2. valid_value lo (length h2) w"
    by simp_all
  from "11.prems"(3) p1 p2 have h': "h' = h2" and ys: "ys = v1 # ys2" by simp_all
  have "take (length h) h2 = take (length h) (take (length h1) h2)"
    using len1 by (simp add: min_def)
  also have "\<dots> = h" by (simp only: tk2 tk1)
  finally have tk: "take (length h) h2 = h" .
  from valid_value_mono[OF v1 le_refl len2] have v1': "valid_value lo (length h2) v1" .
  from len1 len2 have len: "length h \<le> length h2" by simp
  from vals v1' have all: "\<forall>w \<in> set (v1 # ys2). valid_value lo (length h2) w"
    by simp
  from len tk rc2 all show ?case unfolding h' ys by blast
qed (simp_all add: region_closed_empty)

subsection \<open>Unflatten keeps the heap well formed\<close>

lemma h_assign_path_region:
  "h_assign_path h current keys v = Inr h' \<Longrightarrow> region_closed lo h \<Longrightarrow>
   valid_value lo (length h) current \<Longrightarrow> valid_value lo (length h) v \<Longrightarrow>
   length h \<le> length h' \<and> take lo h' = take lo h \<and> region_closed lo h'"
proof (induction h current keys v arbitrary: h' rule: h_assign_path.induct)
  case (1 h current v)
  then show ?case by simp
next
  case (2 h current key v)
  from h_set_property_region[OF _ "2.prems"(2,3,4), of key h'] "2.prems"(1)
  show ?case by simp
next
  case (3 h current key k2 keys v)
  let ?child = "h_get_property h current key"
  show ?case
  proof (cases "\<not> r_truthy ?child \<or> r_typeof ?child \<noteq> TObject")
    case True
    let ?h1 = "h @ [CObj []]"
    from True "3.prems"(1) obtain h2 where
      s: "h_set_property ?h1 current key (RRef (length h)) = Inr h2"
      and a: "h_assign_path h2 (h_get_property h2 current key) (k2 # keys) v = Inr h'"
      by (auto simp: alloc_def Let_def split: sum.splits)
    have rc1: "region_closed lo ?h1"
      by (rule region_closed_alloc[OF "3.prems"(2)]) simp
    have cur1: "valid_value lo (length ?h1) current"
      by (rule valid_value_mono[OF "3.prems"(3)]) simp_all
    from "3.prems"(3) s have lo: "lo \<le> length h"
      by (cases current) (auto simp: h_set_property_def)
    then have new: "valid_value lo (length ?h1) (RRef (length h))" by simp
    from h_set_property_region[OF s rc1 cur1 new]
    have len2: "length h2 = length ?h1" and tk2: "take lo h2 = take lo ?h1"
      and rc2: "region_closed lo h2" by simp_all
    from cur1 len2 have cur2: "valid_value lo (length h2) current" by simp
    from "3.prems"(4) len2 have v2: "valid_value lo (length h2) v"
      by (auto intro: valid_value_mono)
    from "3.IH"(1)[OF refl True _ refl s a rc2 h_get_property_valid[OF rc2 cur2] v2]
    have "length h2 \<le> length h' \<and> take lo h' = take lo h2 \<and> region_closed lo h'"
      by (simp add: alloc_def)
    with len2 tk2 lo show ?thesis by simp
  next
    case False
    with "3.prems"(1) have a: "h_assign_path h ?child (k2 # keys) v = Inr h'"
      by (simp add: Let_def)
    from "3.IH"(2)[OF refl False a "3.prems"(2) h_get_property_valid[OF "3.prems"(2,3)] "3.prems"(4)]
    show ?thesis .
  qed
qed

lemma h_unflatten_loop_region:
  "h_unflatten_loop h obj result keys = Inr h' \<Longrightarrow> region_closed lo h \<Longrightarrow>
   valid_value lo (length h) obj \<Longrightarrow> valid_value lo (length h) result \<Longrightarrow>
   length h \<le> length h' \<and> take lo h' = take lo h \<and> region_closed lo h'"
proof (induction h obj result keys arbitrary: h' rule: h_unflatten_loop.induct)
  case (1 h obj result)
  then show ?case by simp
next
  case (2 h obj result fullKey rest)
  from "2.prems"(1) obtain h1 where
    a: "h_assign_path h result (getKeys fullKey) (h_get_property h obj fullKey) = Inr h1"
    and l: "h_unflatten_loop h1 obj result rest = Inr h'"
    by (auto split: sum.splits)
  from h_assign_path_region[OF a "2.prems"(2,4) h_get_property_valid[OF "2.prems"(2,3)]]
  have len1: "length h \<le> length h1" and tk1: "take lo h1 = take lo h"
    and rc1: "region_closed lo h1" by simp_all
  from "2.IH"[OF a l rc1 valid_value_mono[OF "2.prems"(3) le_refl len1]
      valid_value_mono[OF "2.prems"(4) le_refl len1]] len1 tk1
  show ?case by simp
qed

lemma h_unflattenJson_wf:
  assumes "h_unflattenJson h (RRef a) = Inr (h', nested)" and "wf_heap h" and "a < length h"
  shows "wf_heap h' \<and> length h \<le> length h' \<and> valid_value 0 (length h') nested"
proof -
  let ?h1 = "h @ [CObj []]"
  from assms(1) have l: "h_unflatten_loop ?h1 (RRef a) (RRef (length h)) (h_own_keys ?h1 (RRef a)) = Inr h'"
    and n: "nested = RRef (length h)"
    by (auto simp: h_unflattenJson_def alloc_def split: sum.splits)
  from assms(2) have rc1: "region_closed 0 ?h1"
    unfolding wf_heap_def by (rule region_closed_alloc) simp
  from h_unflatten_loop_region[OF l rc1] assms(3)
  have "length ?h1 \<le> length h' \<and> region_closed 0 h'" by simp
  with n show ?thesis by (simp add: wf_heap_def)
qed

subsection \<open>Mutations of the dumped object stay in its region\<close>

lemma h_getNested_loop_region:
  "h_getNested_loop h current keys = Some v \<Longrightarrow> region_closed lo h \<Longrightarrow>
   valid_value lo (length h) current \<Longrightarrow> valid_value lo (length h) v"
proof (induction h current keys rule: h_getNested_loop.induct)
  case (1 h current)
  then show ?case by simp
next
  case (2 h current key keys)
  from "2.prems"(1) have c: "r_truthy current \<and> r_typeof current = TObject \<and> h_has_property h key current"
    and l: "h_getNested_loop h (h_get_property h current key) keys = Some v"
    by (simp_all split: if_splits)
  from "2.IH"[OF c l "2.prems"(2) h_get_property_valid[OF "2.prems"(2,3)]] show ?case .
qed

text \<open>What a mutation of the dumped structure preserves.\<close>

lemma apply_mutation_region:
  assumes "region_closed lo h" and "lo \<le> length h" and "valid_value lo (length h) dumped"
  shows "length h \<le> length (apply_mutation dumped h m)
       \<and> take lo (apply_mutation dumped h m) = take lo h
       \<and> region_closed lo (apply_mutation dumped h m)"
proof (cases m)
  case (SetProperty target key operand)
  show ?thesis
  proof (cases "h_getNested_loop h dumped target")
    case None
    with SetProperty assms show ?thesis by simp
  next
    case (Some obj)
    from h_getNested_loop_region[OF Some assms(1,3)] have obj: "valid_value lo (length h) obj" .
    show ?thesis
    proof (cases "eval_operand h dumped operand")
      case None
      with SetProperty Some assms show ?thesis by simp
    next
      case (Some hv)
      obtain h1 v where hv: "hv = (h1, v)" by (cases hv)
      have ev: "length h \<le> length h1 \<and> take (length h) h1 = h \<and> region_closed lo h1
          \<and> valid_value lo (length h1) v"
      proof (cases operand)
        case (Fresh t)
        with Some hv have "h_parse h t = (h1, v)" by simp
        from h_parse_region[OF assms(1,2) this] show ?thesis .
      next
        case (Found keys)
        with Some hv have "h_getNested_loop h dumped keys = Some v" and "h1 = h"
          by (auto split: option.splits)
        with h_getNested_loop_region[OF _ assms(1,3)] assms(1) show ?thesis by simp
      qed
      then have len1: "length h \<le> length h1" and tk1: "take (length h) h1 = h"
        and rc1: "region_closed lo h1" and v: "valid_value lo (length h1) v" by simp_all
      have tk1': "take lo h1 = take lo h"
      proof -
        have "take lo h1 = take lo (take (length h) h1)" using assms(2) by (simp add: min_def)
        then show ?thesis by (simp only: tk1)
      qed
      show ?thesis
      proof (cases "h_set_property h1 obj key v")
        case (Inl e)
        with SetProperty \<open>h_getNested_loop h dumped target = Some obj\<close> Some hv assms
        show ?thesis by simp
      next
        case (Inr h2)
        from h_set_property_region[OF Inr rc1 valid_value_mono[OF obj le_refl len1] v]
        have "length h2 = length h1" "take lo h2 = take lo h1" "region_closed lo h2"
          by simp_all
        with SetProperty \<open>h_getNested_loop h dumped target = Some obj\<close> Some hv Inr len1 tk1'
        show ?thesis by simp
      qed
    qed
  qed
next
  case (DeleteProperty target key)
  show ?thesis
  proof (cases "h_getNested_loop h dumped target")
    case None
    with DeleteProperty assms show ?thesis by simp
  next
    case (Some obj)
    from h_getNested_loop_region[OF Some assms(1,3)] have obj: "valid_value lo (length h) obj" .
    show ?thesis
    proof (cases obj)
      case (RRef a)
      show ?thesis
      proof (cases "a < length h")
        case True
        show ?thesis
        proof (cases "cell_delete (h ! a) key")
          case None
          with DeleteProperty Some RRef True assms show ?thesis by simp
        next
          case (Some c)
          from obj RRef have lo: "lo \<le> a" by simp
          with assms(1) True have "\<forall>w \<in> set (cell_values (h ! a)). valid_value lo (length h) w"
            by (simp add: region_closed_iff)
          from region_closed_update[OF assms(1) cell_delete_valid[OF Some this], of a] lo
            DeleteProperty \<open>h_getNested_loop h dumped target = Some obj\<close> RRef True Some
          show ?thesis by simp
        qed
      next
        case False
        with DeleteProperty Some RRef assms show ?thesis by simp
      qed
    qed (use DeleteProperty Some assms in simp_all)
  qed
qed

lemma apply_mutations_region:
  "region_closed lo h \<Longrightarrow> lo \<le> length h \<Longrightarrow> valid_value lo (length h) dumped \<Longrightarrow>
   take lo (apply_mutations dumped h ms) = take lo h"
proof (induction ms arbitrary: h)
  case Nil
  show ?case by (simp add: apply_mutations_def)
next
  case (Cons m ms)
  let ?h1 = "apply_mutation dumped h m"
  from apply_mutation_region[OF Cons.prems, of m]
  have len: "length h \<le> length ?h1" and tk: "take lo ?h1 = take lo h"
    and rc: "region_closed lo ?h1" by simp_all
  from len Cons.prems(2) have lo: "lo \<le> length ?h1" by simp
  from Cons.IH[OF rc lo valid_value_mono[OF Cons.prems(3) le_refl len]] tk
  show ?case by (simp add: apply_mutations_def)
qed

text \<open>Reading the store looks at the cells below \<open>n\<close> only when they refer to each other only.\<close>

lemma h_getNested_loop_frame:
  "take n h' = take n h \<Longrightarrow> n \<le> length h \<Longrightarrow> n \<le> length h' \<Longrightarrow> region_closed 0 (take n h) \<Longrightarrow>
   valid_value 0 n current \<Longrightarrow>
   h_getNested_loop h' current keys = h_getNested_loop h current keys"
proof (induction keys arbitrary: current)
  case Nil
  show ?case by simp
next
  case (Cons key keys)
  show ?case
  proof (cases current)
    case (RRef a)
    with Cons.prems(5) have a: "a < n" by simp
    from Cons.prems(1) a have same: "h' ! a = h ! a"
      by (metis nth_take)
    from a Cons.prems(2) have "take n h ! a = h ! a" by simp
    with Cons.prems(4) a Cons.prems(2)
    have "\<forall>v \<in> set (cell_values (h ! a)). valid_value 0 n v"
      by (auto simp: region_closed_iff)
    from cell_get_valid[OF this] have next_ok: "valid_value 0 n (cell_get (h ! a) key)" .
    from a Cons.prems(2,3) same RRef
    have "h_has_property h' key current = h_has_property h key current"
      and "h_get_property h' current key = cell_get (h ! a) key"
      and "h_get_property h current key = cell_get (h ! a) key"
      by (simp_all add: h_has_property_def h_get_property_def)
    with Cons.IH[OF Cons.prems(1-4) next_ok] show ?thesis by simp
  qed (simp_all add: h_has_property_def)
qed

text \<open>
  Claim C9. In a well-formed heap, let \<open>dump()\<close> of the manager return the object \<open>dumped\<close>.
  Whatever sequence of mutations is then applied to \<open>dumped\<close> or to objects reached from it,
  \<open>read(path)\<close> of the manager returns, for every path argument, what it returns without those
  mutations: the dumped structure lies in cells that \<open>JSON.parse\<close> allocated, and no cell of
  the store refers to them.
\<close>

theorem dump_is_detached:
  assumes "wf_heap h" and "jsonObject < length h"
    and "h_dump h jsonObject = Inr (h', dumped)"
  shows "h_read (apply_mutations dumped h' ms) jsonObject path = h_read h' jsonObject path"
proof -
  from assms(3) obtain h1 nested json where
    u: "h_unflattenJson h (RRef jsonObject) = Inr (h1, nested)"
    and p: "h_parse h1 json = (h', dumped)"
    by (auto simp: h_dump_def split: sum.splits prod.splits)
  from h_unflattenJson_wf[OF u assms(1,2)]
  have wf1: "region_closed 0 h1" and len1: "length h \<le> length h1"
    by (simp_all add: wf_heap_def)
  let ?n = "length h1"
  from h_parse_region[OF region_closed_empty[of h1 ?n] le_refl p]
  have len': "?n \<le> length h'" and tk: "take ?n h' = h1" and rc: "region_closed ?n h'"
    and d: "valid_value ?n (length h') dumped" by simp_all
  let ?hf = "apply_mutations dumped h' ms"
  from apply_mutations_region[OF rc len' d, of ms] have tkf: "take ?n ?hf = take ?n h'" .
  have lenf: "?n \<le> length ?hf"
  proof -
    from tkf tk have "length (take ?n ?hf) = ?n" by simp
    then show ?thesis by simp
  qed
  from wf1 tk have old: "region_closed 0 (take ?n h')" by simp
  from assms(2) len1 have root: "valid_value 0 ?n (RRef jsonObject)" by simp
  from h_getNested_loop_frame[OF tkf len' lenf old root]
  show ?thesis by (cases path) (simp_all add: h_read_def)
qed

theorem dump_is_detached_witness:
  "wf_heap [CObj [(''a'', RRef 1), (''a.y'', RNum 2)], CObj [(''x'', RNum 1)]]
   \<and> h_dump [CObj [(''a'', RRef 1), (''a.y'', RNum 2)], CObj [(''x'', RNum 1)]] 0
       = Inr ([CObj [(''a'', RRef 1), (''a.y'', RNum 2)],
               CObj [(''x'', RNum 1), (''y'', RNum 2)],
               CObj [(''a'', RRef 1)],
               CObj [(''x'', RNum 1), (''y'', RNum 2)],
               CObj [(''a'', RRef 3)]], RRef 4)
   \<and> h_read (apply_mutations (RRef 4)
              [CObj [(''a'', RRef 1), (''a.y'', RNum 2)],
               CObj [(''x'', RNum 1), (''y'', RNum 2)],
               CObj [(''a'', RRef 1)],
               CObj [(''x'', RNum 1), (''y'', RNum 2)],
               CObj [(''a'', RRef 3)]]
              [SetProperty [''a''] ''x'' (Fresh (JNum 5)), DeleteProperty [] ''a''])
         0 (JStr ''a.x'')
       = h_read [CObj [(''a'', RRef 1), (''a.y'', RNum 2)],
                 CObj [(''x'', RNum 1), (''y'', RNum 2)],
                 CObj [(''a'', RRef 1)],
                 CObj [(''x'', RNum 1), (''y'', RNum 2)],
                 CObj [(''a'', RRef 3)]] 0 (JStr ''a.x'')"
proof -
  let ?h = "[CObj [(''a'', RRef 1), (''a.y'', RNum 2)], CObj [(''x'', RNum 1)]]"
  have wf: "wf_heap ?h"
    by (simp add: wf_heap_def region_closed_def)
  have root: "0 < length ?h" by simp
  have keys: "getKeys ''a'' = [''a'']" "getKeys ''a.y'' = [''a'', ''y'']"
    by (simp_all add: getKeys_def dot_def backslash_def)
  have d: "h_dump ?h 0
       = Inr ([CObj [(''a'', RRef 1), (''a.y'', RNum 2)],
               CObj [(''x'', RNum 1), (''y'', RNum 2)],
               CObj [(''a'', RRef 1)],
               CObj [(''x'', RNum 1), (''y'', RNum 2)],
               CObj [(''a'', RRef 3)]], RRef 4)"
    by (simp add: h_dump_def h_unflattenJson_def alloc_def h_own_keys_def keys
        h_get_property_def h_set_property_def Let_def)
  from dump_is_detached[OF wf root d] wf d show ?thesis by blast
qed

section \<open>The scenarios of the test suite\<close>

text \<open>
  The model run on the tests of the repository: the dump test, the construction of the store
  of the search tests, the path, like and keyword searches, and a read of an absent path. The
  results are the ones that the tests expect.
\<close>

lemma test_dump_returns_structure:
  "write_value createJsonManager (JStr ''key1'') (JNum 1) = (Inr (), JObj [(''key1'', JNum 1)])"
  "write_value (JObj [(''key1'', JNum 1)]) (JStr ''key2.subkey'') (JNum 2)
     = (Inr (), JObj [(''key1'', JNum 1), (''key2'', JObj [(''subkey'', JNum 2)])])"
  "write_value (JObj [(''key1'', JNum 1), (''key2'', JObj [(''subkey'', JNum 2)])])
       (JStr (''escaped'' @ [backslash] @ ''.key'')) (JStr ''value'')
     = (Inr (), JObj [(''key1'', JNum 1), (''key2'', JObj [(''subkey'', JNum 2)]),
                      (''escaped.key'', JStr ''value'')])"
  "dump (JObj [(''key1'', JNum 1), (''key2'', JObj [(''subkey'', JNum 2)]),
               (''escaped.key'', JStr ''value'')])
     = Inr (JObj [(''key1'', JNum 1), (''key2'', JObj [(''subkey'', JNum 2)]),
                  (''escaped'', JObj [(''key'', JStr ''value'')])])"
  by (simp_all add: write_value_def createJsonManager_def setNestedValueWithEscaping_def
      dump_def unflattenJson_def getKeys_def dot_def backslash_def)

lemma test_search_store:
  "snd (write_value (snd (write_value (snd (write_value createJsonManager
      (JStr ''nest.secondnest.third.value'') (JNum 42)))
      (JStr ''example.like.path'') (JStr ''test'')))
      (JStr (''escaped'' @ [backslash] @ ''.key.level'')) (JStr ''value'')) = search_store"
  by (simp add: write_value_def createJsonManager_def setNestedValueWithEscaping_def
      getKeys_def dot_def backslash_def search_store_def)

lemma test_has_path:
  "has search_store (path_only ''nest.secondnest.third.value'')
     = Inr [(''nest.secondnest.third.value'', JNum 42)]"
  by (simp add: has_def searchJson_def path_search_def searchPath_def path_only_def
      escapeDots_def deep_requested_def search_store_def dot_def backslash_def)

lemma test_has_like:
  "has search_store \<lparr>crit_path = None, crit_like = Some ''like'', crit_keywords = None,
        crit_regex = None\<rparr>
     = Inr [(''example.like'', JObj [(''path'', JStr ''test'')]),
            (''example.like.path'', JStr ''test'')]"
  by (simp add: has_def searchJson_def path_search_def deep_requested_def search_store_def
      like_matches_def keywords_match_def regex_matches_def join_key_def dot_def)

lemma test_has_keywords:
  "has search_store \<lparr>crit_path = None, crit_like = None,
        crit_keywords = Some [''value'', ''like''], crit_regex = None\<rparr>
     = Inr [(''nest.secondnest.third.value'', JNum 42),
            (''example.like'', JObj [(''path'', JStr ''test'')]),
            (''example.like.path'', JStr ''test''),
            (''escaped'' @ [backslash] @ ''.key.level'', JStr ''value'')]"
  by (simp add: has_def searchJson_def path_search_def deep_requested_def search_store_def
      like_matches_def keywords_match_def regex_matches_def join_key_def dot_def backslash_def)

lemma test_read_absent:
  "read search_store (JStr ''nest.fakekey'') = Inr JUndefined"
  by (simp add: read_def getNestedValueWithEscaping_def getKeys_def dot_def backslash_def
      search_store_def)

section \<open>Sharing in the reference model\<close>

text \<open>
  Without the copy through JSON the result of \<open>unflattenJson\<close> shares the objects of the store:
  an assignment through the result changes what \<open>read\<close> returns.
\<close>

lemma unflatten_result_shares_store:
  "h_unflattenJson [CObj [(''a'', RRef 1)], CObj [(''x'', RNum 1)]] (RRef 0)
     = Inr ([CObj [(''a'', RRef 1)], CObj [(''x'', RNum 1)], CObj [(''a'', RRef 1)]], RRef 2)
   \<and> h_read (apply_mutations (RRef 2)
               [CObj [(''a'', RRef 1)], CObj [(''x'', RNum 1)], CObj [(''a'', RRef 1)]]
               [SetProperty [''a''] ''x'' (Fresh (JNum 5))]) 0 (JStr ''a.x'') = Inr (RNum 5)
   \<and> h_read [CObj [(''a'', RRef 1)], CObj [(''x'', RNum 1)], CObj [(''a'', RRef 1)]] 0
        (JStr ''a.x'') = Inr (RNum 1)"
proof -
  have keys: "getKeys ''a'' = [''a'']" "getKeys ''a.x'' = [''a'', ''x'']"
    by (simp_all add: getKeys_def dot_def backslash_def)
  show ?thesis
    by (simp add: h_unflattenJson_def alloc_def h_own_keys_def keys h_get_property_def
        h_set_property_def h_has_property_def h_read_def apply_mutations_def Let_def)
qed

text \<open>
  \<open>dump()\<close> itself can change what \<open>read\<close> returns: with the owned tree
  \<open>{"a": {"x": 1}, "a.y": 2}\<close>, \<open>unflattenJson\<close> assigns \<open>y\<close> into the object under \<open>a\<close>, which is
  the store's own.
\<close>

lemma dump_changes_store:
  "h_read [CObj [(''a'', RRef 1), (''a.y'', RNum 2)], CObj [(''x'', RNum 1)]] 0 (JStr ''a.y'')
     = Inr RUndefined
   \<and> (case h_dump [CObj [(''a'', RRef 1), (''a.y'', RNum 2)], CObj [(''x'', RNum 1)]] 0 of
        Inr (h', dumped) \<Rightarrow> h_read h' 0 (JStr ''a.y'') = Inr (RNum 2)
      | Inl e \<Rightarrow> False)"
proof -
  have keys: "getKeys ''a'' = [''a'']" "getKeys ''a.y'' = [''a'', ''y'']"
    by (simp_all add: getKeys_def dot_def backslash_def)
  show ?thesis
    by (simp add: h_dump_def h_unflattenJson_def alloc_def h_own_keys_def keys
        h_get_property_def h_set_property_def h_has_property_def h_read_def Let_def)
qed

end
